theory Spec2Isabelle
  imports Main "HOL-Library.Multiset" "HOL-Library.Sublist"
begin

section \<open>The skip list of \<open>src/lib/skip.cpp\<close> over an explicit store\<close>

text \<open>
  The container is a pointer structure: every node is shared between the \<open>right\<close> link of
  its predecessor and the \<open>down\<close> link of the copy above it, and \<open>add\<close> and \<open>remove\<close>
  assign to \<open>pre->right\<close> through pointers that \<open>traverse\<close> collected before. The model
  therefore keeps an explicit store: a \<open>shared_ptr<Node<T>>\<close> is \<open>nat option\<close> (\<open>None\<close> is
  \<open>nullptr\<close>), the store maps addresses to nodes, and \<open>make_shared\<close> takes the next unused
  address. Reference counting only frees nodes that no pointer reaches, which no operation
  can observe, so unlinked nodes simply stay in the store.

  The element type \<open>T\<close> is any linear order. The C++ \<open>int\<close> counters are \<open>int\<close>: they count
  levels, and a wrap-around would need more than \<open>2^31\<close> sentinels.
\<close>

subsection \<open>Errors, nodes, the container\<close>

text \<open>
  \<open>AssertionFail\<close> is the exception of \<open>check\<close>, \<open>NoSuchValue\<close> the exception of \<open>remove\<close>,
  \<open>OutOfRange\<close> the exception of \<open>std::map::at\<close>. \<open>NullDeref\<close> (a member access through
  \<open>nullptr\<close>) and \<open>EmptyOptional\<close> (\<open>*\<close> on an empty \<open>optional\<close>) are undefined behaviour in
  C++; the model makes them error results, so that their absence can be stated.
\<close>

datatype error = AssertionFail | NoSuchValue | OutOfRange | NullDeref | EmptyOptional

record 'a Node =
  val :: "'a option"
  down :: "nat option"
  right :: "nat option"

record 'a SkipList =
  heap :: "nat \<Rightarrow> 'a Node"
  head :: nat
  fresh :: nat

definition check :: "bool \<Rightarrow> error option" where
  "check condition = (if \<not> condition then Some AssertionFail else None)"

definition make_shared :: "'a SkipList \<Rightarrow> 'a Node \<Rightarrow> nat \<times> 'a SkipList" where
  "make_shared s n = (fresh s, s\<lparr>heap := (heap s)(fresh s := n), fresh := Suc (fresh s)\<rparr>)"

text \<open>\<open>SkipList()\<close>: the member initialiser of \<open>head_\<close> allocates one sentinel.\<close>

definition new_SkipList :: "'a SkipList" where
  "new_SkipList =
     \<lparr>heap = (\<lambda>_. \<lparr>val = None, down = None, right = None\<rparr>), head = 0, fresh = 1\<rparr>"

subsection \<open>\<open>height\<close>\<close>

partial_function (option) height_loop :: "(nat \<Rightarrow> 'a Node) \<Rightarrow> nat \<Rightarrow> int \<Rightarrow> int option" where
  "height_loop h cur n =
     (case down (h cur) of
        None \<Rightarrow> Some n
      | Some d \<Rightarrow> height_loop h d (n + 1))"

declare height_loop.simps [code]

definition height :: "'a SkipList \<Rightarrow> int option" where
  "height s = height_loop (heap s) (head s) 1"

subsection \<open>\<open>traverse\<close>\<close>

text \<open>
  \<open>std::map<int, tuple<ptr, ptr>>\<close> is an association list kept in ascending key order, the
  order in which \<open>remove\<close> iterates over it. \<open>map_set\<close> is \<open>tracked[k] = v\<close>, \<open>map_at\<close> is
  \<open>tracked.at(k)\<close>.
\<close>

type_synonym tracked = "(int \<times> (nat option \<times> nat option)) list"

fun map_set :: "int \<Rightarrow> 'v \<Rightarrow> (int \<times> 'v) list \<Rightarrow> (int \<times> 'v) list" where
  "map_set k v [] = [(k, v)]"
| "map_set k v ((k', v') # xs) =
     (if k < k' then (k, v) # (k', v') # xs
      else if k = k' then (k, v) # xs
      else (k', v') # map_set k v xs)"

definition map_at :: "(int \<times> 'v) list \<Rightarrow> int \<Rightarrow> error + 'v" where
  "map_at m k = (case map_of m k of None \<Rightarrow> Inl OutOfRange | Some v \<Rightarrow> Inr v)"

text \<open>The inner loop \<open>while (cur != nullptr && *cur->value < value)\<close>.\<close>

partial_function (option) traverse_right ::
  "(nat \<Rightarrow> ('a::linorder) Node) \<Rightarrow> 'a \<Rightarrow> nat \<Rightarrow> nat option \<Rightarrow> (error + nat \<times> nat option) option"
where
  "traverse_right h v pre cur =
     (case cur of
        None \<Rightarrow> Some (Inr (pre, cur))
      | Some c \<Rightarrow>
          (case val (h c) of
             None \<Rightarrow> Some (Inl EmptyOptional)
           | Some w \<Rightarrow>
               if w < v then traverse_right h v c (right (h c))
               else Some (Inr (pre, cur))))"

declare traverse_right.simps [code]

text \<open>The outer loop \<open>while (pre != nullptr)\<close>; it returns the level counter and the map.\<close>

partial_function (option) traverse_loop ::
  "(nat \<Rightarrow> ('a::linorder) Node) \<Rightarrow> 'a \<Rightarrow> nat option \<Rightarrow> int \<Rightarrow> tracked
     \<Rightarrow> (error + int \<times> tracked) option"
where
  "traverse_loop h v pre level tracked =
     (case pre of
        None \<Rightarrow> Some (Inr (level, tracked))
      | Some p \<Rightarrow>
          Option.bind (traverse_right h v p (right (h p)))
            (\<lambda>r. case r of
                Inl e \<Rightarrow> Some (Inl e)
              | Inr (p', cur) \<Rightarrow>
                  traverse_loop h v (down (h p')) (level - 1)
                    (map_set level (Some p', cur) tracked)))"

declare traverse_loop.simps [code]

definition traverse :: "('a::linorder) SkipList \<Rightarrow> 'a \<Rightarrow> (error + tracked) option" where
  "traverse s v =
     (case height s of
        None \<Rightarrow> None
      | Some ht \<Rightarrow>
          (case traverse_loop (heap s) v (Some (head s)) (ht - 1) [] of
             None \<Rightarrow> None
           | Some (Inl e) \<Rightarrow> Some (Inl e)
           | Some (Inr (level, tracked)) \<Rightarrow>
               (case check (level = - 1) of
                  Some e \<Rightarrow> Some (Inl e)
                | None \<Rightarrow> Some (Inr tracked))))"

subsection \<open>\<open>add\<close>\<close>

text \<open>
  \<open>chose_level\<close> counts the draws \<open>rand(0, 4) == 0\<close> before the first other draw. The
  random source is outside the program, so the count it returns is the parameter
  \<open>level\<close> of \<open>add\<close>: any natural number can come out.
\<close>

definition push_head :: "'a SkipList \<Rightarrow> 'a SkipList" where
  "push_head s =
     (let (a, s') = make_shared s \<lparr>val = None, down = Some (head s), right = None\<rparr>
      in s'\<lparr>head := a\<rparr>)"

fun push_heads :: "nat \<Rightarrow> 'a SkipList \<Rightarrow> 'a SkipList" where
  "push_heads 0 s = s"
| "push_heads (Suc k) s = push_heads k (push_head s)"

definition ensure_height :: "'a SkipList \<Rightarrow> int \<Rightarrow> (error option \<times> 'a SkipList) option" where
  "ensure_height s expected =
     (case check (expected > 0) of
        Some e \<Rightarrow> Some (Some e, s)
      | None \<Rightarrow>
          (case height s of
             None \<Rightarrow> None
           | Some current \<Rightarrow>
               if current \<ge> expected then Some (None, s)
               else Some (None, push_heads (nat (expected - current)) s)))"

text \<open>The loop \<open>for (int idx : iota(0, half))\<close> with its local \<open>down\<close>.\<close>

fun add_loop ::
  "tracked \<Rightarrow> 'a \<Rightarrow> int list \<Rightarrow> nat option \<Rightarrow> 'a SkipList \<Rightarrow> error option \<times> 'a SkipList"
where
  "add_loop tracked v [] dn s = (None, s)"
| "add_loop tracked v (idx # idxs) dn s =
     (case map_at tracked idx of
        Inl e \<Rightarrow> (Some e, s)
      | Inr (pre, nex) \<Rightarrow>
          (let (node, s1) = make_shared s \<lparr>val = Some v, down = dn, right = nex\<rparr>
           in case pre of
                None \<Rightarrow> (Some NullDeref, s1)
              | Some p \<Rightarrow>
                  add_loop tracked v idxs (Some node)
                    (s1\<lparr>heap := (heap s1)(p := (heap s1 p)\<lparr>right := Some node\<rparr>)\<rparr>)))"

definition add :: "('a::linorder) SkipList \<Rightarrow> nat \<Rightarrow> 'a \<Rightarrow> (error option \<times> 'a SkipList) option"
where
  "add s level v =
     (let half = int level + 1
      in case ensure_height s half of
           None \<Rightarrow> None
         | Some (Some e, s1) \<Rightarrow> Some (Some e, s1)
         | Some (None, s1) \<Rightarrow>
             (case traverse s1 v of
                None \<Rightarrow> None
              | Some (Inl e) \<Rightarrow> Some (Some e, s1)
              | Some (Inr tracked) \<Rightarrow>
                  Some (add_loop tracked v (map int [0..<nat half]) None s1)))"

subsection \<open>\<open>find\<close>\<close>

definition find_sl :: "('a::linorder) SkipList \<Rightarrow> 'a \<Rightarrow> (error + bool) option" where
  "find_sl s v =
     (case traverse s v of
        None \<Rightarrow> None
      | Some (Inl e) \<Rightarrow> Some (Inl e)
      | Some (Inr tracked) \<Rightarrow>
          (case map_at tracked 0 of
             Inl e \<Rightarrow> Some (Inl e)
           | Inr (_, cur) \<Rightarrow>
               (case cur of
                  None \<Rightarrow> Some (Inr False)
                | Some c \<Rightarrow>
                    (case val (heap s c) of
                       None \<Rightarrow> Some (Inl EmptyOptional)
                     | Some w \<Rightarrow> Some (Inr (w = v))))))"

subsection \<open>\<open>remove\<close>\<close>

partial_function (option) clean_head :: "'a SkipList \<Rightarrow> 'a SkipList option" where
  "clean_head s =
     (if right (heap s (head s)) = None \<and> down (heap s (head s)) \<noteq> None
      then clean_head (s\<lparr>head := the (down (heap s (head s)))\<rparr>)
      else Some s)"

declare clean_head.simps [code]

text \<open>The loop \<open>for (auto [idx, record] : tracked)\<close>, in the key order of the map.\<close>

fun remove_loop :: "tracked \<Rightarrow> 'a \<Rightarrow> 'a SkipList \<Rightarrow> error option \<times> 'a SkipList" where
  "remove_loop [] v s = (None, s)"
| "remove_loop ((idx, (pre, cur)) # rest) v s =
     (case cur of
        None \<Rightarrow> remove_loop rest v s
      | Some c \<Rightarrow>
          (case val (heap s c) of
             None \<Rightarrow> (Some EmptyOptional, s)
           | Some w \<Rightarrow>
               if w \<noteq> v then remove_loop rest v s
               else (case pre of
                       None \<Rightarrow> (Some NullDeref, s)
                     | Some p \<Rightarrow>
                         remove_loop rest v
                           (s\<lparr>heap := (heap s)(p := (heap s p)\<lparr>right := right (heap s c)\<rparr>)\<rparr>))))"

definition remove_sl ::
  "('a::linorder) SkipList \<Rightarrow> 'a \<Rightarrow> (error option \<times> 'a SkipList) option"
where
  "remove_sl s v =
     (case traverse s v of
        None \<Rightarrow> None
      | Some (Inl e) \<Rightarrow> Some (Some e, s)
      | Some (Inr tracked) \<Rightarrow>
          (case map_at tracked 0 of
             Inl e \<Rightarrow> Some (Some e, s)
           | Inr (_, cur) \<Rightarrow>
               (case cur of
                  None \<Rightarrow> Some (Some NoSuchValue, s)
                | Some c \<Rightarrow>
                    (case val (heap s c) of
                       None \<Rightarrow> Some (Some EmptyOptional, s)
                     | Some w \<Rightarrow>
                         if w \<noteq> v then Some (Some NoSuchValue, s)
                         else (case remove_loop tracked v s of
                                 (Some e, s1) \<Rightarrow> Some (Some e, s1)
                               | (None, s1) \<Rightarrow>
                                   map_option (Pair None) (clean_head s1))))))"

subsection \<open>\<open>iter\<close>\<close>

partial_function (option) iter_down :: "(nat \<Rightarrow> 'a Node) \<Rightarrow> nat \<Rightarrow> nat option" where
  "iter_down h row =
     (case down (h row) of
        None \<Rightarrow> Some row
      | Some d \<Rightarrow> iter_down h d)"

declare iter_down.simps [code]

text \<open>The values yielded so far are accumulated in reverse.\<close>

partial_function (option) iter_right ::
  "(nat \<Rightarrow> 'a Node) \<Rightarrow> nat option \<Rightarrow> 'a list \<Rightarrow> (error + 'a list) option"
where
  "iter_right h cur acc =
     (case cur of
        None \<Rightarrow> Some (Inr (rev acc))
      | Some c \<Rightarrow>
          (case val (h c) of
             None \<Rightarrow> Some (Inl EmptyOptional)
           | Some w \<Rightarrow> iter_right h (right (h c)) (w # acc)))"

declare iter_right.simps [code]

definition iter :: "'a SkipList \<Rightarrow> (error + 'a list) option" where
  "iter s =
     (case iter_down (heap s) (head s) of
        None \<Rightarrow> None
      | Some row \<Rightarrow> iter_right (heap s) (right (heap s row)) [])"

subsection \<open>The constructor from a range\<close>

text \<open>
  \<open>SkipList(R&& items)\<close> runs \<open>add(item)\<close> for each item; an exception of \<open>add\<close> ends the
  loop. Each element comes with the level that \<open>chose_level\<close> returns for it.
\<close>

fun add_items ::
  "('a::linorder) SkipList \<Rightarrow> ('a \<times> nat) list \<Rightarrow> (error option \<times> 'a SkipList) option"
where
  "add_items s [] = Some (None, s)"
| "add_items s ((item, level) # items) =
     (case add s level item of
        None \<Rightarrow> None
      | Some (Some e, s1) \<Rightarrow> Some (Some e, s1)
      | Some (None, s1) \<Rightarrow> add_items s1 items)"

definition SkipList_from ::
  "(('a::linorder) \<times> nat) list \<Rightarrow> (error option \<times> 'a SkipList) option"
where
  "SkipList_from items = add_items new_SkipList items"

section \<open>The representation invariant\<close>

fun path :: "(nat \<Rightarrow> 'a Node) \<Rightarrow> nat option \<Rightarrow> nat list \<Rightarrow> bool" where
  "path h p [] = (p = None)"
| "path h p (a # as) = (p = Some a \<and> path h (right (h a)) as)"

definition key :: "(nat \<Rightarrow> 'a Node) \<Rightarrow> nat \<Rightarrow> 'a" where
  "key h a = the (val (h a))"

definition shape :: "'a SkipList \<Rightarrow> nat list \<Rightarrow> nat list list \<Rightarrow> bool" where
  "shape s hs rs \<longleftrightarrow>
     hs \<noteq> [] \<and> length rs = length hs \<and> head s = last hs \<and> distinct hs \<and>
     (\<forall>a\<in>set hs. a < fresh s) \<and>
     (\<forall>i<length hs. distinct (rs ! i) \<and> set (rs ! i) \<inter> set hs = {} \<and>
                      (\<forall>a\<in>set (rs ! i). a < fresh s)) \<and>
     (\<forall>i<length hs. \<forall>j<length hs. i \<noteq> j \<longrightarrow> set (rs ! i) \<inter> set (rs ! j) = {})"

definition rows_ok :: "(nat \<Rightarrow> 'a Node) \<Rightarrow> nat list \<Rightarrow> nat list list \<Rightarrow> bool" where
  "rows_ok h hs rs \<longleftrightarrow> (\<forall>i<length hs. path h (right (h (hs ! i))) (rs ! i))"

definition vals_ok :: "(nat \<Rightarrow> ('a::linorder) Node) \<Rightarrow> nat list \<Rightarrow> nat list list \<Rightarrow> bool" where
  "vals_ok h hs rs \<longleftrightarrow>
     (\<forall>a\<in>set hs. val (h a) = None) \<and>
     (\<forall>i<length hs. (\<forall>a\<in>set (rs ! i). val (h a) \<noteq> None) \<and> sorted (map (key h) (rs ! i)))"

definition vert_ok :: "(nat \<Rightarrow> 'a Node) \<Rightarrow> nat list \<Rightarrow> nat list list \<Rightarrow> bool" where
  "vert_ok h hs rs \<longleftrightarrow>
     down (h (hs ! 0)) = None \<and> (\<forall>a\<in>set (rs ! 0). down (h a) = None) \<and>
     (\<forall>i. Suc i < length hs \<longrightarrow>
        down (h (hs ! Suc i)) = Some (hs ! i) \<and>
        (\<forall>a\<in>set (rs ! Suc i). \<exists>d. down (h a) = Some d \<and> val (h d) = val (h a)) \<and>
        subseq (map (\<lambda>a. the (down (h a))) (rs ! Suc i)) (rs ! i))"

definition wf :: "('a::linorder) SkipList \<Rightarrow> nat list \<Rightarrow> nat list list \<Rightarrow> bool" where
  "wf s hs rs \<longleftrightarrow>
     shape s hs rs \<and> rows_ok (heap s) hs rs \<and> vals_ok (heap s) hs rs \<and> vert_ok (heap s) hs rs"

lemma wf_new: "wf new_SkipList [0] [[]]"
  by (simp add: wf_def shape_def rows_ok_def vals_ok_def vert_ok_def new_SkipList_def)

lemma wf_ne: "wf s hs rs \<Longrightarrow> 0 < length hs"
  by (simp add: wf_def shape_def)

lemma wf_head: "wf s hs rs \<Longrightarrow> head s = hs ! (length hs - 1)"
  by (simp add: wf_def shape_def last_conv_nth)

lemma wf_path: "wf s hs rs \<Longrightarrow> i < length hs \<Longrightarrow> path (heap s) (right (heap s (hs ! i))) (rs ! i)"
  by (simp add: wf_def rows_ok_def)

lemma wf_vals: "wf s hs rs \<Longrightarrow> i < length hs \<Longrightarrow> \<forall>a\<in>set (rs ! i). val (heap s a) \<noteq> None"
  by (simp add: wf_def vals_ok_def)

lemma wf_sorted: "wf s hs rs \<Longrightarrow> i < length hs \<Longrightarrow> sorted (map (key (heap s)) (rs ! i))"
  by (simp add: wf_def vals_ok_def)

subsection \<open>height\<close>

lemma height_loop_col:
  assumes "down (h (hs ! 0)) = None"
    and "\<forall>i. Suc i < length hs \<longrightarrow> down (h (hs ! Suc i)) = Some (hs ! i)"
  shows "i < length hs \<Longrightarrow> height_loop h (hs ! i) n = Some (n + int i)"
proof (induction i arbitrary: n)
  case 0
  then show ?case using assms(1) by (subst height_loop.simps) simp
next
  case (Suc i)
  then have "down (h (hs ! Suc i)) = Some (hs ! i)" using assms(2) by blast
  then show ?case using Suc by (subst height_loop.simps) simp
qed

lemma wf_height:
  assumes "wf s hs rs"
  shows "height s = Some (int (length hs))"
proof -
  from assms have ne: "hs \<noteq> []" and hd: "head s = hs ! (length hs - 1)"
    by (simp_all add: wf_def shape_def last_conv_nth)
  from assms have "height_loop (heap s) (hs ! (length hs - 1)) 1 = Some (1 + int (length hs - 1))"
    by (intro height_loop_col) (use ne in \<open>simp_all add: wf_def vert_ok_def\<close>)
  moreover have "1 + int (length hs - 1) = int (length hs)"
    using ne by (cases hs) simp_all
  ultimately show ?thesis by (simp add: height_def hd)
qed

subsection \<open>traverse\<close>

definition below :: "(nat \<Rightarrow> ('a::linorder) Node) \<Rightarrow> 'a \<Rightarrow> nat \<Rightarrow> bool" where
  "below h v a \<longleftrightarrow> key h a < v"

lemma below_iff: "val (h a) = Some w \<Longrightarrow> below h v a \<longleftrightarrow> w < v"
  by (simp add: below_def key_def)

definition first_of :: "nat list \<Rightarrow> nat option" where
  "first_of as = (case as of [] \<Rightarrow> None | a # _ \<Rightarrow> Some a)"

lemma traverse_right_row:
  "path h cur as \<Longrightarrow> \<forall>a\<in>set as. val (h a) \<noteq> None \<Longrightarrow>
   traverse_right h v pre cur =
     Some (Inr (last (pre # takeWhile (below h v) as), first_of (dropWhile (below h v) as)))"
proof (induction as arbitrary: pre cur)
  case Nil
  then show ?case by (subst traverse_right.simps) (simp add: first_of_def)
next
  case (Cons a as)
  then obtain w where w: "val (h a) = Some w" by auto
  from Cons.prems have cur: "cur = Some a" and p: "path h (right (h a)) as" by auto
  show ?case
  proof (cases "w < v")
    case True
    then have "traverse_right h v pre cur = traverse_right h v a (right (h a))"
      using w cur by (subst traverse_right.simps) simp
    also have "\<dots> = Some (Inr (last (a # takeWhile (below h v) as), first_of (dropWhile (below h v) as)))"
      using Cons.IH [OF p] Cons.prems(2) by simp
    finally show ?thesis using True w by (simp add: below_iff)
  next
    case False
    then show ?thesis using w cur
      by (subst traverse_right.simps) (simp add: below_iff first_of_def)
  qed
qed


definition entry ::
  "(nat \<Rightarrow> ('a::linorder) Node) \<Rightarrow> 'a \<Rightarrow> nat list \<Rightarrow> nat list list \<Rightarrow> nat
     \<Rightarrow> int \<times> nat option \<times> nat option" where
  "entry h v hs rs i =
     (int i, Some (last (hs ! i # takeWhile (below h v) (rs ! i))),
      first_of (dropWhile (below h v) (rs ! i)))"

definition tracked_of ::
  "(nat \<Rightarrow> ('a::linorder) Node) \<Rightarrow> 'a \<Rightarrow> nat list \<Rightarrow> nat list list \<Rightarrow> tracked" where
  "tracked_of h v hs rs = map (entry h v hs rs) [0..<length hs]"

lemma map_set_front: "\<forall>e\<in>set xs. k < fst e \<Longrightarrow> map_set k v xs = (k, v) # xs"
  by (cases xs) auto

lemma path_append:
  "path h p (as @ bs) \<Longrightarrow> as \<noteq> [] \<Longrightarrow> path h (right (h (last as))) bs"
  by (induction as arbitrary: p) (auto split: if_splits)

lemma path_from_last:
  "path h (right (h x)) (as @ bs) \<Longrightarrow> path h (right (h (last (x # as)))) bs"
  using path_append [of h "Some x" "x # as" bs] by simp

lemma last_shift: "last (x # as @ bs) = last (last (x # as) # bs)"
  by (cases bs) simp_all

lemma takeWhile_all_append:
  "\<forall>a\<in>set as. P a \<Longrightarrow> takeWhile P (as @ bs) = as @ takeWhile P bs"
  by (induction as) simp_all

lemma dropWhile_all_append:
  "\<forall>a\<in>set as. P a \<Longrightarrow> dropWhile P (as @ bs) = dropWhile P bs"
  by (induction as) simp_all

lemma subseq_mem: "subseq xs ys \<Longrightarrow> x \<in> set xs \<Longrightarrow> x \<in> set ys"
  by (erule list_emb_set) auto

text \<open>Where the descent stands before it enters level \<open>k - 1\<close>.\<close>

definition at_level ::
  "(nat \<Rightarrow> ('a::linorder) Node) \<Rightarrow> 'a \<Rightarrow> nat list \<Rightarrow> nat list list \<Rightarrow> nat \<Rightarrow> nat option \<Rightarrow> bool"
where
  "at_level h v hs rs k pre \<longleftrightarrow>
     (case k of
        0 \<Rightarrow> pre = None
      | Suc i \<Rightarrow> (\<exists>as bs. rs ! i = as @ bs \<and> (\<forall>a\<in>set as. below h v a) \<and>
                           pre = Some (last (hs ! i # as))))"

lemma sorted_below_prefix:
  assumes "sorted (map (key h) (ys @ d # zs))" and "below h v d"
  shows "\<forall>a\<in>set (ys @ [d]). below h v a"
  using assms by (auto simp: sorted_append below_def)

lemma at_level_down:
  assumes wf: "wf s hs rs" and k: "k < length hs"
  shows "at_level (heap s) v hs rs k
           (down (heap s (last (hs ! k # takeWhile (below (heap s) v) (rs ! k)))))"
proof -
  let ?h = "heap s"
  let ?tw = "takeWhile (below ?h v) (rs ! k)"
  from wf have vert: "vert_ok ?h hs rs" and vals: "vals_ok ?h hs rs" by (simp_all add: wf_def)
  show ?thesis
  proof (cases "?tw = []")
    case True
    then show ?thesis using vert k
      by (cases k) (auto simp: at_level_def vert_ok_def)
  next
    case False
    define p where "p = last ?tw"
    have pin: "p \<in> set ?tw" using False by (simp add: p_def)
    then have prow: "p \<in> set (rs ! k)" and pb: "below ?h v p"
      by (auto dest: set_takeWhileD)
    have lastp: "last (hs ! k # ?tw) = p" using False by (simp add: p_def)
    show ?thesis
    proof (cases k)
      case 0
      then show ?thesis using vert prow lastp by (simp add: at_level_def vert_ok_def)
    next
      case (Suc i)
      with vert k have
        dn: "\<forall>a\<in>set (rs ! Suc i). \<exists>d. down (?h a) = Some d \<and> val (?h d) = val (?h a)" and
        sub: "subseq (map (\<lambda>a. the (down (?h a))) (rs ! Suc i)) (rs ! i)"
        by (auto simp: vert_ok_def)
      from dn prow Suc obtain d where d: "down (?h p) = Some d" "val (?h d) = val (?h p)"
        by blast
      have "d \<in> set (map (\<lambda>a. the (down (?h a))) (rs ! Suc i))"
        using prow Suc d by force
      then have "d \<in> set (rs ! i)" using sub by (rule subseq_mem [rotated])
      then obtain ys zs where split: "rs ! i = ys @ d # zs" by (auto simp: in_set_conv_decomp)
      have srt: "sorted (map (key ?h) (rs ! i))"
        using vals k Suc by (simp add: vals_ok_def)
      have bd: "below ?h v d" using pb d by (simp add: below_def key_def)
      have all: "\<forall>a\<in>set (ys @ [d]). below ?h v a"
        using sorted_below_prefix [of ?h ys d zs v] srt bd split by simp
      have "\<exists>as bs. rs ! i = as @ bs \<and> (\<forall>a\<in>set as. below ?h v a) \<and>
              down (?h p) = Some (last (hs ! i # as))"
        apply (rule exI [of _ "ys @ [d]"])
        apply (rule exI [of _ zs])
        using all split d by simp
      then show ?thesis using lastp by (simp add: at_level_def Suc)
    qed
  qed
qed


lemma traverse_loop_levels:
  assumes wf: "wf s hs rs"
  shows "k \<le> length hs \<Longrightarrow> at_level (heap s) v hs rs k pre \<Longrightarrow>
         traverse_loop (heap s) v pre (int k - 1) (map (entry (heap s) v hs rs) [k..<length hs])
           = Some (Inr (- 1, tracked_of (heap s) v hs rs))"
proof (induction k arbitrary: pre)
  case 0
  then show ?case
    by (subst traverse_loop.simps) (simp add: at_level_def tracked_of_def)
next
  case (Suc i)
  let ?h = "heap s"
  let ?P = "below ?h v"
  from Suc.prems obtain as bs where
    row: "rs ! i = as @ bs" and as: "\<forall>a\<in>set as. ?P a" and pre: "pre = Some (last (hs ! i # as))"
    by (auto simp: at_level_def)
  from Suc.prems have i: "i < length hs" by simp
  define p where "p = last (hs ! i # as)"
  from wf i have "path ?h (right (?h (hs ! i))) (rs ! i)" by (simp add: wf_def rows_ok_def)
  then have pth: "path ?h (right (?h p)) bs"
    unfolding row p_def by (rule path_from_last)
  from wf i have "\<forall>a\<in>set (rs ! i). val (?h a) \<noteq> None" by (simp add: wf_def vals_ok_def)
  then have vs: "\<forall>a\<in>set bs. val (?h a) \<noteq> None" by (simp add: row)
  have pre': "last (p # takeWhile ?P bs) = last (hs ! i # takeWhile ?P (rs ! i))"
    unfolding row p_def takeWhile_all_append [OF as] by (rule last_shift [symmetric])
  have cur': "dropWhile ?P bs = dropWhile ?P (rs ! i)"
    unfolding row dropWhile_all_append [OF as] ..
  have tr: "traverse_right ?h v p (right (?h p)) =
          Some (Inr (last (hs ! i # takeWhile ?P (rs ! i)), first_of (dropWhile ?P (rs ! i))))"
    using traverse_right_row [OF pth vs, of v p] by (simp only: pre' cur')
  have ms: "map_set (int i)
              (Some (last (hs ! i # takeWhile ?P (rs ! i))), first_of (dropWhile ?P (rs ! i)))
              (map (entry ?h v hs rs) [Suc i..<length hs])
            = map (entry ?h v hs rs) [i..<length hs]"
    using i by (subst map_set_front) (auto simp: entry_def upt_conv_Cons)
  have nxt: "at_level ?h v hs rs i (down (?h (last (hs ! i # takeWhile ?P (rs ! i)))))"
    using wf i by (rule at_level_down)
  have "traverse_loop ?h v pre (int (Suc i) - 1) (map (entry ?h v hs rs) [Suc i..<length hs])
        = traverse_loop ?h v (down (?h (last (hs ! i # takeWhile ?P (rs ! i))))) (int i - 1)
            (map (entry ?h v hs rs) [i..<length hs])"
    by (subst traverse_loop.simps) (simp del: last.simps add: pre p_def [symmetric] tr ms)
  also have "\<dots> = Some (Inr (- 1, tracked_of ?h v hs rs))"
    using Suc.IH [OF _ nxt] i by simp
  finally show ?case .
qed

lemma wf_traverse_loop:
  assumes "wf s hs rs"
  shows "traverse_loop (heap s) v (Some (head s)) (int (length hs) - 1) []
           = Some (Inr (- 1, tracked_of (heap s) v hs rs))"
proof -
  from assms have ne: "hs \<noteq> []" and hd: "head s = hs ! (length hs - 1)"
    by (simp_all add: wf_def shape_def last_conv_nth)
  then obtain i where n: "length hs = Suc i" by (cases hs) auto
  have "at_level (heap s) v hs rs (length hs) (Some (head s))"
    unfolding n at_level_def using hd n
    by (simp add: exI [of _ "[]"])
  from traverse_loop_levels [OF assms _ this] show ?thesis by simp
qed

lemma wf_traverse:
  assumes "wf s hs rs"
  shows "traverse s v = Some (Inr (tracked_of (heap s) v hs rs))"
  by (simp add: traverse_def wf_height [OF assms] wf_traverse_loop [OF assms] check_def)

lemma map_of_levels:
  "map_of (map (\<lambda>a. (int a, g a)) [0..<n]) (int i) = (if i < n then Some (g i) else None)"
  by (induction n) (auto simp: map_add_def less_Suc_eq split: option.splits)

lemma map_at_tracked_of:
  assumes "i < length hs"
  shows "map_at (tracked_of h v hs rs) (int i) =
           Inr (Some (last (hs ! i # takeWhile (below h v) (rs ! i))),
                first_of (dropWhile (below h v) (rs ! i)))"
proof -
  have "entry h v hs rs = (\<lambda>a. (int a, snd (entry h v hs rs a)))"
    by (rule ext) (simp add: entry_def)
  then have "map_of (tracked_of h v hs rs) (int i) = Some (snd (entry h v hs rs i))"
    using map_of_levels [of "\<lambda>a. snd (entry h v hs rs a)" "length hs" i] assms
    by (simp add: tracked_of_def)
  then show ?thesis by (simp add: map_at_def entry_def del: last.simps)
qed


subsection \<open>find and iter\<close>

lemma sorted_first_ge:
  "sorted (map f xs) \<Longrightarrow>
   v \<in> f ` set xs \<longleftrightarrow>
     (case dropWhile (\<lambda>a. f a < v) xs of [] \<Rightarrow> False | c # _ \<Rightarrow> f c = (v::'b::linorder))"
proof (induction xs)
  case Nil
  then show ?case by simp
next
  case (Cons x xs)
  show ?case
  proof (cases "f x < v")
    case True
    then show ?thesis using Cons by auto
  next
    case False
    then have "\<forall>y\<in>set xs. v \<le> f x \<and> f x \<le> f y" using Cons.prems by auto
    then show ?thesis using False by force
  qed
qed

lemma wf_find:
  assumes "wf s hs rs"
  shows "find_sl s v = Some (Inr (v \<in> set (map (key (heap s)) (rs ! 0))))"
proof -
  let ?h = "heap s"
  from assms have n: "0 < length hs" by (rule wf_ne)
  from assms n have srt: "sorted (map (key ?h) (rs ! 0))" by (rule wf_sorted)
  from assms n have vs: "\<forall>a\<in>set (rs ! 0). val (?h a) \<noteq> None" by (rule wf_vals)
  have P: "(\<lambda>a. key ?h a < v) = below ?h v" by (rule ext) (simp add: below_def)
  have mem: "v \<in> set (map (key ?h) (rs ! 0)) \<longleftrightarrow>
       (case dropWhile (below ?h v) (rs ! 0) of [] \<Rightarrow> False | c # _ \<Rightarrow> key ?h c = v)"
    using sorted_first_ge [OF srt, of v] by (simp only: P set_map)
  have tr: "find_sl s v =
      (case first_of (dropWhile (below ?h v) (rs ! 0)) of
         None \<Rightarrow> Some (Inr False)
       | Some c \<Rightarrow> (case val (?h c) of None \<Rightarrow> Some (Inl EmptyOptional)
                                     | Some w \<Rightarrow> Some (Inr (w = v))))"
    using map_at_tracked_of [OF n, of ?h v rs]
    by (simp add: find_sl_def wf_traverse [OF assms] del: last.simps)
  show ?thesis
  proof (cases "dropWhile (below ?h v) (rs ! 0)")
    case Nil
    show ?thesis unfolding tr mem by (simp add: Nil first_of_def)
  next
    case (Cons c cs)
    then have "c \<in> set (rs ! 0)" by (metis list.set_intros(1) set_dropWhileD)
    then obtain w where "val (?h c) = Some w" using vs by auto
    then show ?thesis unfolding tr mem by (simp add: Cons first_of_def key_def)
  qed
qed

lemma iter_down_col:
  assumes "down (h (hs ! 0)) = None"
    and "\<forall>i. Suc i < length hs \<longrightarrow> down (h (hs ! Suc i)) = Some (hs ! i)"
  shows "i < length hs \<Longrightarrow> iter_down h (hs ! i) = Some (hs ! 0)"
proof (induction i)
  case 0
  then show ?case using assms(1) by (subst iter_down.simps) simp
next
  case (Suc i)
  then have "down (h (hs ! Suc i)) = Some (hs ! i)" using assms(2) by blast
  then show ?case using Suc by (subst iter_down.simps) simp
qed

lemma iter_right_row:
  "path h cur as \<Longrightarrow> \<forall>a\<in>set as. val (h a) \<noteq> None \<Longrightarrow>
   iter_right h cur acc = Some (Inr (rev acc @ map (key h) as))"
proof (induction as arbitrary: cur acc)
  case Nil
  then show ?case by (subst iter_right.simps) simp
next
  case (Cons a as)
  then obtain w where w: "val (h a) = Some w" by auto
  from Cons.prems have "cur = Some a" and "path h (right (h a)) as" by auto
  then show ?case using Cons.IH [of "right (h a)" "w # acc"] Cons.prems(2) w
    by (subst iter_right.simps) (simp add: key_def)
qed

lemma wf_iter:
  assumes "wf s hs rs"
  shows "iter s = Some (Inr (map (key (heap s)) (rs ! 0)))"
proof -
  let ?h = "heap s"
  from assms have ne: "hs \<noteq> []" and hd: "head s = hs ! (length hs - 1)"
    by (simp_all add: wf_def shape_def last_conv_nth)
  from assms have "iter_down ?h (hs ! (length hs - 1)) = Some (hs ! 0)"
    by (intro iter_down_col) (use ne in \<open>simp_all add: wf_def vert_ok_def\<close>)
  moreover have "path ?h (right (?h (hs ! 0))) (rs ! 0)"
    using assms wf_ne [OF assms] by (rule wf_path)
  moreover have "\<forall>a\<in>set (rs ! 0). val (?h a) \<noteq> None"
    using assms wf_ne [OF assms] by (rule wf_vals)
  ultimately show ?thesis
    using iter_right_row [of ?h "right (?h (hs ! 0))" "rs ! 0" "[]"]
    by (simp add: iter_def hd)
qed

section \<open>The constructor from a range\<close>

definition spec_add_next ::
  "(error option \<times> ('a::linorder) SkipList) option \<Rightarrow> 'a \<times> nat
     \<Rightarrow> (error option \<times> 'a SkipList) option" where
  "spec_add_next r x =
     (case r of
        Some (None, s) \<Rightarrow> add s (snd x) (fst x)
      | _ \<Rightarrow> r)"

definition spec_construct ::
  "(('a::linorder) \<times> nat) list \<Rightarrow> (error option \<times> 'a SkipList) option" where
  "spec_construct items = foldl spec_add_next (Some (None, new_SkipList)) items"

lemma spec_add_next_simps:
  "spec_add_next (Some (None, s)) (item, level) = add s level item"
  "spec_add_next None x = None"
  "spec_add_next (Some (Some e, s)) x = Some (Some e, s)"
  by (simp_all add: spec_add_next_def)

lemma foldl_spec_add_next_stuck:
  "r = None \<or> (\<exists>e s. r = Some (Some e, s)) \<Longrightarrow> foldl spec_add_next r items = r"
  by (induction items) (auto simp: spec_add_next_simps)

lemma add_items_foldl:
  "add_items s items = foldl spec_add_next (Some (None, s)) items"
proof (induction items arbitrary: s)
  case Nil
  then show ?case by simp
next
  case (Cons x items)
  obtain item level where x: "x = (item, level)" by (cases x)
  show ?case
  proof (cases "add s level item")
    case None
    then show ?thesis using foldl_spec_add_next_stuck [of None items]
      by (simp add: x spec_add_next_simps)
  next
    case (Some r)
    obtain e s1 where r: "r = (e, s1)" by (cases r)
    show ?thesis
    proof (cases e)
      case None
      then show ?thesis using Some r Cons.IH [of s1] by (simp add: x spec_add_next_simps)
    next
      case (Some err)
      then show ?thesis
        using \<open>add s level item = Some r\<close> r foldl_spec_add_next_stuck [of "Some (Some err, s1)" items]
        by (simp add: x spec_add_next_simps)
    qed
  qed
qed

text \<open>
  C9: constructing a list from a sequence of items is the same computation as starting from
  the empty list and calling \<open>add\<close> once per item, in order.
\<close>

theorem SkipList_from_is_adds: "SkipList_from items = spec_construct items"
  by (simp add: SkipList_from_def spec_construct_def add_items_foldl)

theorem SkipList_from_is_adds_witness:
  "SkipList_from [(5::int, 1), (3, 0), (5, 0)] = spec_construct [(5, 1), (3, 0), (5, 0)]"
  by (rule SkipList_from_is_adds)

end
